theory Spec2Isabelle
  imports Main "HOL-Library.Monad_Syntax" "HOL-Library.Signed_Division"
begin

section \<open>The canvas of asciidraw.c\<close>

text \<open>
  The C type \<open>int\<close> is modelled by \<open>int\<close>: no claim below depends on overflow, and signed
  overflow has no defined result in C.  A \<open>char\<close> is an Isabelle \<open>char\<close> (a byte).

  \<open>struct Grid\<close> holds \<open>char **state\<close>.  The pointer array is a list of slots; a slot is
  \<open>None\<close> while no row has been stored in it and \<open>Some row\<close> once it points to an allocated
  row.  The null pointer that \<open>main\<close> starts with is the empty list.  An access outside an
  allocated object has no defined behaviour in C; every function that touches the buffer
  returns an \<open>option\<close>, and \<open>None\<close> stands for such an access.
\<close>

type_synonym buffer = "char list option list"

record Grid =
  state :: buffer
  character :: char
  width :: int
  height :: int
  initialized :: int

text \<open>The value read by \<open>state[i][j]\<close>.\<close>

definition cell_read :: "buffer \<Rightarrow> int \<Rightarrow> int \<Rightarrow> char option" where
  "cell_read st i j =
     (if 0 \<le> i \<and> i < int (length st) then
        (case st ! nat i of
           None \<Rightarrow> None
         | Some row \<Rightarrow> if 0 \<le> j \<and> j < int (length row) then Some (row ! nat j) else None)
      else None)"

text \<open>The assignment \<open>state[i][j] = c\<close>.\<close>

definition cell_write :: "buffer \<Rightarrow> int \<Rightarrow> int \<Rightarrow> char \<Rightarrow> buffer option" where
  "cell_write st i j c =
     (if 0 \<le> i \<and> i < int (length st) then
        (case st ! nat i of
           None \<Rightarrow> None
         | Some row \<Rightarrow>
             if 0 \<le> j \<and> j < int (length row)
             then Some (st[nat i := Some (row[nat j := c])])
             else None)
      else None)"

text \<open>The assignment \<open>state[i] = malloc(sizeof(char) * n)\<close>, with \<open>malloc\<close> taken to
  succeed; the fresh row holds \<open>n\<close> bytes of no particular value (written here as zero
  bytes; \<open>grid\<close> overwrites every one of them before it returns).\<close>

definition row_alloc :: "buffer \<Rightarrow> int \<Rightarrow> int \<Rightarrow> buffer option" where
  "row_alloc st i n =
     (if 0 \<le> i \<and> i < int (length st)
      then Some (st[nat i := Some (replicate (nat n) (CHR 0x00))])
      else None)"

definition in_bounds :: "Grid \<Rightarrow> int \<Rightarrow> int \<Rightarrow> bool" where
  "in_bounds grid x y \<longleftrightarrow> x \<ge> 0 \<and> x < width grid \<and> y \<ge> 0 \<and> y < height grid"

definition plot :: "Grid \<Rightarrow> int \<Rightarrow> int \<Rightarrow> Grid option" where
  "plot grid x y =
     (if \<not> in_bounds grid x y then Some grid
      else (case cell_write (state grid) x y (character grid) of
              None \<Rightarrow> None
            | Some st \<Rightarrow> Some (grid\<lparr>state := st\<rparr>)))"

text \<open>
  A canvas whose buffer covers every in-bounds cell: the pointer array has at least \<open>width\<close>
  slots, and each of the first \<open>width\<close> slots points to a row of at least \<open>height\<close> cells
  (no row is needed when \<open>height\<close> is not positive).  This is the shape
  \<open>malloc(sizeof(char*) * width)\<close> and \<open>malloc(sizeof(char) * height)\<close> ask for.
\<close>

definition row_ok :: "int \<Rightarrow> char list option \<Rightarrow> bool" where
  "row_ok h p = (case p of None \<Rightarrow> h \<le> 0 | Some row \<Rightarrow> h \<le> int (length row))"

definition canvas_ok :: "Grid \<Rightarrow> bool" where
  "canvas_ok g \<longleftrightarrow>
     width g \<le> int (length (state g)) \<and>
     list_all (row_ok (height g)) (take (nat (width g)) (state g))"

text \<open>The four fields of the canvas other than the cells.\<close>

definition same_frame :: "Grid \<Rightarrow> Grid \<Rightarrow> bool" where
  "same_frame g g' \<longleftrightarrow>
     width g' = width g \<and> height g' = height g \<and>
     character g' = character g \<and> initialized g' = initialized g"

text \<open>The canvas \<open>main\<close> starts with: the designated initialiser sets \<open>character\<close> and
  \<open>initialized\<close>, the other members are zero.\<close>

definition initial_grid :: Grid where
  "initial_grid =
     \<lparr>state = [], character = CHR ''*'', width = 0, height = 0, initialized = 0\<rparr>"

section \<open>Counted loops\<close>

text \<open>
  \<open>for (int i = i0; i < n; ++i) body\<close>, for a body that assigns neither \<open>i\<close> nor \<open>n\<close>.  The
  body takes the counter and the data the loop changes; the loop stops with \<open>None\<close> as soon
  as the body does.
\<close>

function for_loop :: "int \<Rightarrow> int \<Rightarrow> (int \<Rightarrow> 's \<Rightarrow> 's option) \<Rightarrow> 's \<Rightarrow> 's option" where
  "for_loop i n body s =
     (if i < n then
        (case body i s of None \<Rightarrow> None | Some s' \<Rightarrow> for_loop (i + 1) n body s')
      else Some s)"
  by pat_completeness auto
termination
  by (relation "measure (\<lambda>(i, n, body, s). nat (n - i))") auto

section \<open>Commands\<close>

text \<open>\<open>enum Command\<close>.  The name \<open>CHAR\<close> is taken in HOL, hence the prime.\<close>

datatype Command =
  CHAR' | CIRCLE | CLEAR | DISPLAY | END | GRID | INVALID | LINE | POINT | RECTANGLE

definition COMMAND_STRING :: "(Command \<times> string) list" where
  "COMMAND_STRING =
     [(CHAR', ''CHAR''),
      (CIRCLE, ''CIRCLE''),
      (CLEAR, ''CLEAR''),
      (DISPLAY, ''DISPLAY''),
      (END, ''END''),
      (GRID, ''GRID''),
      (LINE, ''LINE''),
      (POINT, ''POINT''),
      (RECTANGLE, ''RECTANGLE'')]"

text \<open>The search loop of \<open>command_from_string\<close>, from index \<open>i\<close> on; \<open>strcmp\<close> returns 0
  exactly on equal strings.\<close>

function command_from_string_loop :: "string \<Rightarrow> nat \<Rightarrow> Command" where
  "command_from_string_loop str i =
     (if i < length COMMAND_STRING then
        (if str = snd (COMMAND_STRING ! i) then fst (COMMAND_STRING ! i)
         else command_from_string_loop str (i + 1))
      else INVALID)"
  by pat_completeness auto
termination
  by (relation "measure (\<lambda>(str, i). length COMMAND_STRING - i)") auto

definition command_from_string :: "string \<Rightarrow> Command" where
  "command_from_string str = command_from_string_loop str 0"

text \<open>\<open>int args[ARGS_MAX]\<close> with \<open>ARGS_MAX = 4\<close>: four integers.  A handler reads the
  positions it needs and takes whatever the others hold.\<close>

type_synonym arguments = "int \<times> int \<times> int \<times> int"

record Operation =
  name :: string
  cmd :: Command
  args :: arguments

section \<open>The rasterisers\<close>

function bresenham_line_loop ::
  "Grid \<Rightarrow> int \<Rightarrow> int \<Rightarrow> int \<Rightarrow> int \<Rightarrow> int \<Rightarrow> int \<Rightarrow> int \<Rightarrow> int \<Rightarrow> int \<Rightarrow> Grid option" where
  "bresenham_line_loop g x1 y1 x2 y2 dx dy decide pk i =
     (if i \<le> dx then
        (let x1' = (if x1 < x2 then x1 + 1 else x1 - 1) in
         if pk < 0 then
           (case (if decide \<noteq> 0 then plot g y1 x1' else plot g x1' y1) of
              None \<Rightarrow> None
            | Some g' \<Rightarrow>
                bresenham_line_loop g' x1' y1 x2 y2 dx dy decide (pk + 2 * dy) (i + 1))
         else
           (let y1' = (if y1 < y2 then y1 + 1 else y1 - 1) in
            case (if decide \<noteq> 0 then plot g y1' x1' else plot g x1' y1') of
              None \<Rightarrow> None
            | Some g' \<Rightarrow>
                bresenham_line_loop g' x1' y1' x2 y2 dx dy decide
                  (pk + 2 * dy - 2 * dx) (i + 1)))
      else Some g)"
  by pat_completeness auto
termination
  by (relation "measure (\<lambda>(g, x1, y1, x2, y2, dx, dy, decide, pk, i). nat (dx + 1 - i))")
    auto

definition bresenham_line ::
  "Grid \<Rightarrow> int \<Rightarrow> int \<Rightarrow> int \<Rightarrow> int \<Rightarrow> int \<Rightarrow> int \<Rightarrow> int \<Rightarrow> Grid option" where
  "bresenham_line g x1 y1 x2 y2 dx dy decide =
     (let pk = 2 * dy - dx in bresenham_line_loop g x1 y1 x2 y2 dx dy decide pk 0)"

text \<open>The block of eight calls of \<open>plot\<close> that \<open>bresenham_circle\<close> runs before its loop and
  at the end of every iteration.\<close>

definition plot_octants :: "Grid \<Rightarrow> int \<Rightarrow> int \<Rightarrow> int \<Rightarrow> int \<Rightarrow> Grid option" where
  "plot_octants g xc yc x y = do {
     g \<leftarrow> plot g (xc + x) (yc + y);
     g \<leftarrow> plot g (xc - x) (yc + y);
     g \<leftarrow> plot g (xc + x) (yc - y);
     g \<leftarrow> plot g (xc - x) (yc - y);
     g \<leftarrow> plot g (xc + y) (yc + x);
     g \<leftarrow> plot g (xc - y) (yc + x);
     g \<leftarrow> plot g (xc + y) (yc - x);
     plot g (xc - y) (yc - x)
   }"

function bresenham_circle_loop ::
  "Grid \<Rightarrow> int \<Rightarrow> int \<Rightarrow> int \<Rightarrow> int \<Rightarrow> int \<Rightarrow> Grid option" where
  "bresenham_circle_loop g xc yc x y d =
     (if y \<ge> x then
        (let x' = x + 1;
             y' = (if d > 0 then y - 1 else y);
             d' = (if d > 0 then d + 4 * (x' - y') + 10 else d + 4 * x' + 6)
         in case plot_octants g xc yc x' y' of
              None \<Rightarrow> None
            | Some g' \<Rightarrow> bresenham_circle_loop g' xc yc x' y' d')
      else Some g)"
  by pat_completeness auto
termination
  by (relation "measure (\<lambda>(g, xc, yc, x, y, d). nat (y - x + 1))") auto

definition bresenham_circle :: "Grid \<Rightarrow> int \<Rightarrow> int \<Rightarrow> int \<Rightarrow> Grid option" where
  "bresenham_circle g xc yc radius =
     (let x = 0; y = radius; d = 3 - 2 * radius
      in case plot_octants g xc yc x y of
           None \<Rightarrow> None
         | Some g' \<Rightarrow> bresenham_circle_loop g' xc yc x y d)"

section \<open>The handlers\<close>

text \<open>What a handler prints is returned next to the canvas it leaves.\<close>

definition newline :: string where
  "newline = [CHR 0x0A]"

definition error_not_initialized :: string where
  "error_not_initialized = ''error: Grid isn't initialized'' @ newline"

definition error_already_initialized :: string where
  "error_already_initialized = ''error: Grid has already been initialized'' @ newline"

text \<open>The handler \<open>character\<close> (the name is taken by the field): \<open>(char)args[0]\<close> keeps the
  low byte.\<close>

definition character' :: "Grid \<Rightarrow> arguments \<Rightarrow> Grid" where
  "character' g a = (case a of (a0, a1, a2, a3) \<Rightarrow> g\<lparr>character := char_of a0\<rparr>)"

definition circle :: "Grid \<Rightarrow> arguments \<Rightarrow> (Grid \<times> string) option" where
  "circle g a =
     (case a of (x, y, radius, a3) \<Rightarrow>
        if initialized g = 0 then Some (g, error_not_initialized)
        else (case bresenham_circle g x y radius of
                None \<Rightarrow> None
              | Some g' \<Rightarrow> Some (g', [])))"

definition clear :: "Grid \<Rightarrow> Grid option" where
  "clear g =
     (case for_loop 0 (height g)
             (\<lambda>i. for_loop 0 (width g) (\<lambda>j st. cell_write st i j (CHR '' ''))) (state g) of
        None \<Rightarrow> None
      | Some st \<Rightarrow> Some (g\<lparr>state := st\<rparr>))"

text \<open>\<open>printf("%d", n)\<close>: the decimal digits of \<open>n\<close>, after a minus sign when \<open>n\<close> is
  negative.\<close>

fun digits :: "nat \<Rightarrow> string" where
  "digits n =
     (if n < 10 then [char_of (48 + n)] else digits (n div 10) @ [char_of (48 + n mod 10)])"

definition printf_d :: "int \<Rightarrow> string" where
  "printf_d n = (if n < 0 then CHR ''-'' # digits (nat (- n)) else digits (nat n))"

text \<open>The ruler digit \<open>((9 - i) % wrap + wrap) % wrap\<close>; the \<open>%\<close> of C truncates towards
  zero, which is \<open>smod\<close>.\<close>

definition ruler :: "int \<Rightarrow> int \<Rightarrow> int" where
  "ruler wrap i = ((9 - i) smod wrap + wrap) smod wrap"

definition display :: "Grid \<Rightarrow> string option" where
  "display g =
     (let wrap = 10 in
      if initialized g = 0 then Some error_not_initialized
      else do {
        out \<leftarrow> for_loop 0 (width g)
          (\<lambda>i out. do {
             out \<leftarrow> Some (out @ printf_d (ruler wrap i) @ '' '');
             out \<leftarrow> for_loop 0 (height g)
               (\<lambda>j out. do { c \<leftarrow> cell_read (state g) j i; Some (out @ [c]) }) out;
             Some (out @ newline)
           }) [];
        out \<leftarrow> Some (out @ '' '');
        out \<leftarrow> for_loop 0 (width g) (\<lambda>i out. Some (out @ printf_d (ruler wrap i))) out;
        Some (out @ newline)
      })"

text \<open>\<open>malloc(sizeof(char*) * width)\<close> gives a pointer array of \<open>width\<close> slots, none of
  them pointing anywhere yet (no slot at all when \<open>width\<close> is not positive).\<close>

definition grid :: "Grid \<Rightarrow> arguments \<Rightarrow> (Grid \<times> string) option" where
  "grid g a =
     (case a of (width', height', a2, a3) \<Rightarrow>
        if initialized g \<noteq> 0 then Some (g, error_already_initialized)
        else do {
          st \<leftarrow> Some (replicate (nat width') None);
          st \<leftarrow> for_loop 0 height' (\<lambda>i st. row_alloc st i height') st;
          st \<leftarrow> for_loop 0 height'
            (\<lambda>i. for_loop 0 width' (\<lambda>j st. cell_write st i j (CHR '' ''))) st;
          Some (g\<lparr>state := st, width := width', height := height', initialized := 1\<rparr>, [])
        })"

definition line :: "Grid \<Rightarrow> arguments \<Rightarrow> (Grid \<times> string) option" where
  "line g a =
     (case a of (x1, y1, x2, y2) \<Rightarrow>
        if initialized g = 0 then Some (g, error_not_initialized)
        else (case plot g x1 y1 of
                None \<Rightarrow> None
              | Some g' \<Rightarrow>
                  (let dx = \<bar>x2 - x1\<bar>; dy = \<bar>y2 - y1\<bar> in
                   case (if dx > dy
                         then bresenham_line g' x1 y1 x2 y2 dx dy 0
                         else bresenham_line g' y1 x1 y2 x2 dy dx 1) of
                     None \<Rightarrow> None
                   | Some g'' \<Rightarrow> Some (g'', []))))"

definition point :: "Grid \<Rightarrow> arguments \<Rightarrow> (Grid \<times> string) option" where
  "point g a =
     (case a of (x, y, a2, a3) \<Rightarrow>
        if initialized g = 0 then Some (g, error_not_initialized)
        else (case plot g x y of None \<Rightarrow> None | Some g' \<Rightarrow> Some (g', [])))"

definition rectangle :: "Grid \<Rightarrow> arguments \<Rightarrow> (Grid \<times> string) option" where
  "rectangle g a =
     (case a of (x1, y1, x2, y2) \<Rightarrow>
        if initialized g = 0 then Some (g, error_not_initialized)
        else do {
          (g, o1) \<leftarrow> line g (x1, y1, x1 + \<bar>x2 - x1\<bar>, y1);
          (g, o2) \<leftarrow> line g (x1 + \<bar>x2 - x1\<bar>, y1, x2, y2);
          (g, o3) \<leftarrow> line g (x2, y2, x1, y1 + \<bar>y2 - y1\<bar>);
          (g, o4) \<leftarrow> line g (x1, y1 + \<bar>y2 - y1\<bar>, x1, y1);
          Some (g, o1 @ o2 @ o3 @ o4)
        })"

section \<open>The interpreter\<close>

record Interpreter =
  i_grid :: Grid
  i_op :: Operation

definition load :: "Interpreter \<Rightarrow> Operation \<Rightarrow> Interpreter" where
  "load i operation = i\<lparr>i_op := operation\<rparr>"

text \<open>\<open>eval\<close> either ends the process (\<open>exit(0)\<close>) or returns, leaving an interpreter and
  some printed text.\<close>

datatype outcome = Exited | Returned Interpreter string

definition eval :: "Interpreter \<Rightarrow> outcome option" where
  "eval i =
     (case cmd (i_op i) of
        CHAR' \<Rightarrow> Some (Returned (i\<lparr>i_grid := character' (i_grid i) (args (i_op i))\<rparr>) [])
      | CIRCLE \<Rightarrow>
          (case circle (i_grid i) (args (i_op i)) of
             None \<Rightarrow> None
           | Some (g, out) \<Rightarrow> Some (Returned (i\<lparr>i_grid := g\<rparr>) out))
      | CLEAR \<Rightarrow>
          (case clear (i_grid i) of
             None \<Rightarrow> None
           | Some g \<Rightarrow> Some (Returned (i\<lparr>i_grid := g\<rparr>) []))
      | DISPLAY \<Rightarrow>
          (case display (i_grid i) of
             None \<Rightarrow> None
           | Some out \<Rightarrow> Some (Returned i out))
      | END \<Rightarrow> Some Exited
      | GRID \<Rightarrow>
          (case grid (i_grid i) (args (i_op i)) of
             None \<Rightarrow> None
           | Some (g, out) \<Rightarrow> Some (Returned (i\<lparr>i_grid := g\<rparr>) out))
      | INVALID \<Rightarrow>
          Some (Returned i (''error: Invalid command `'' @ name (i_op i) @ ''`'' @ newline))
      | LINE \<Rightarrow>
          (case line (i_grid i) (args (i_op i)) of
             None \<Rightarrow> None
           | Some (g, out) \<Rightarrow> Some (Returned (i\<lparr>i_grid := g\<rparr>) out))
      | POINT \<Rightarrow>
          (case point (i_grid i) (args (i_op i)) of
             None \<Rightarrow> None
           | Some (g, out) \<Rightarrow> Some (Returned (i\<lparr>i_grid := g\<rparr>) out))
      | RECTANGLE \<Rightarrow>
          (case rectangle (i_grid i) (args (i_op i)) of
             None \<Rightarrow> None
           | Some (g, out) \<Rightarrow> Some (Returned (i\<lparr>i_grid := g\<rparr>) out)))"

section \<open>The calls of plot\<close>

text \<open>
  The rasterisers change the canvas through \<open>plot\<close> only, and what \<open>plot\<close> returns never
  decides where they go next.  The functions of this section follow the same loops and list
  the coordinates handed to \<open>plot\<close>, in order and whether or not they are on the canvas;
  \<open>plot_seq\<close> plots such a list.
\<close>

fun plot_seq :: "Grid \<Rightarrow> (int \<times> int) list \<Rightarrow> Grid option" where
  "plot_seq g [] = Some g"
| "plot_seq g ((x, y) # ps) =
     (case plot g x y of None \<Rightarrow> None | Some g' \<Rightarrow> plot_seq g' ps)"

function bresenham_line_calls ::
  "int \<Rightarrow> int \<Rightarrow> int \<Rightarrow> int \<Rightarrow> int \<Rightarrow> int \<Rightarrow> int \<Rightarrow> int \<Rightarrow> int \<Rightarrow> (int \<times> int) list" where
  "bresenham_line_calls x1 y1 x2 y2 dx dy decide pk i =
     (if i \<le> dx then
        (let x1' = (if x1 < x2 then x1 + 1 else x1 - 1) in
         if pk < 0 then
           (if decide \<noteq> 0 then (y1, x1') else (x1', y1)) #
             bresenham_line_calls x1' y1 x2 y2 dx dy decide (pk + 2 * dy) (i + 1)
         else
           (let y1' = (if y1 < y2 then y1 + 1 else y1 - 1) in
            (if decide \<noteq> 0 then (y1', x1') else (x1', y1')) #
              bresenham_line_calls x1' y1' x2 y2 dx dy decide (pk + 2 * dy - 2 * dx) (i + 1)))
      else [])"
  by pat_completeness auto
termination
  by (relation "measure (\<lambda>(x1, y1, x2, y2, dx, dy, decide, pk, i). nat (dx + 1 - i))") auto

text \<open>The calls of the handler \<open>line\<close> on an initialised canvas: the start point, then the
  loop.\<close>

definition line_calls :: "arguments \<Rightarrow> (int \<times> int) list" where
  "line_calls a =
     (case a of (x1, y1, x2, y2) \<Rightarrow>
        (let dx = \<bar>x2 - x1\<bar>; dy = \<bar>y2 - y1\<bar> in
         (x1, y1) #
           (if dx > dy
            then bresenham_line_calls x1 y1 x2 y2 dx dy 0 (2 * dy - dx) 0
            else bresenham_line_calls y1 x1 y2 x2 dy dx 1 (2 * dx - dy) 0)))"

definition octants :: "int \<Rightarrow> int \<Rightarrow> int \<Rightarrow> int \<Rightarrow> (int \<times> int) list" where
  "octants xc yc x y =
     [(xc + x, yc + y), (xc - x, yc + y), (xc + x, yc - y), (xc - x, yc - y),
      (xc + y, yc + x), (xc - y, yc + x), (xc + y, yc - x), (xc - y, yc - x)]"

text \<open>The eight offsets from the centre that make up one block of calls.\<close>

definition offsets :: "int \<Rightarrow> int \<Rightarrow> (int \<times> int) list" where
  "offsets x y =
     [(x, y), (- x, y), (x, - y), (- x, - y), (y, x), (- y, x), (y, - x), (- y, - x)]"

function bresenham_circle_calls_loop ::
  "int \<Rightarrow> int \<Rightarrow> int \<Rightarrow> int \<Rightarrow> int \<Rightarrow> (int \<times> int) list" where
  "bresenham_circle_calls_loop xc yc x y d =
     (if y \<ge> x then
        (let x' = x + 1;
             y' = (if d > 0 then y - 1 else y);
             d' = (if d > 0 then d + 4 * (x' - y') + 10 else d + 4 * x' + 6)
         in octants xc yc x' y' @ bresenham_circle_calls_loop xc yc x' y' d')
      else [])"
  by pat_completeness auto
termination
  by (relation "measure (\<lambda>(xc, yc, x, y, d). nat (y - x + 1))") auto

definition bresenham_circle_calls :: "int \<Rightarrow> int \<Rightarrow> int \<Rightarrow> (int \<times> int) list" where
  "bresenham_circle_calls xc yc radius =
     octants xc yc 0 radius @ bresenham_circle_calls_loop xc yc 0 radius (3 - 2 * radius)"

text \<open>Running \<open>line\<close> on a list of argument arrays, one call after the other.\<close>

fun line_seq :: "Grid \<Rightarrow> arguments list \<Rightarrow> (Grid \<times> string) option" where
  "line_seq g [] = Some (g, [])"
| "line_seq g (a # as) =
     (case line g a of
        None \<Rightarrow> None
      | Some (g', out) \<Rightarrow>
          (case line_seq g' as of
             None \<Rightarrow> None
           | Some (g'', out') \<Rightarrow> Some (g'', out @ out')))"

section \<open>Some canvases\<close>

text \<open>The canvas that \<open>GRID 3,3\<close> leaves when it is the first command of a session.\<close>

definition blank3 :: Grid where
  "blank3 =
     \<lparr>state = [Some ''   '', Some ''   '', Some ''   ''],
      character = CHR ''*'', width = 3, height = 3, initialized = 1\<rparr>"

text \<open>A canvas of width 2 and height 1 whose buffer has exactly that shape: two rows
  (\<open>x = 0, 1\<close>) of one cell (\<open>y = 0\<close>), with \<open>a\<close> in cell \<open>(0, 0)\<close> and \<open>c\<close> in cell \<open>(1, 0)\<close>.\<close>

definition canvas21 :: Grid where
  "canvas21 =
     \<lparr>state = [Some ''a'', Some ''c''],
      character = CHR ''*'', width = 2, height = 1, initialized = 1\<rparr>"

text \<open>The same canvas with a second cell in each row, so that \<open>state[0][1]\<close> and
  \<open>state[1][1]\<close> can be accessed although \<open>y = 1\<close> is out of bounds.\<close>

definition roomy21 :: Grid where
  "roomy21 =
     \<lparr>state = [Some ''ab'', Some ''cd''],
      character = CHR ''*'', width = 2, height = 1, initialized = 1\<rparr>"

section \<open>The canvas as the specification describes it\<close>

text \<open>The buffer is exactly \<open>width\<close> rows of \<open>height\<close> cells, the shape the two calls of
  \<open>malloc\<close> in \<open>grid\<close> ask for and \<open>state[x][y]\<close> in \<open>plot\<close> indexes.\<close>

definition canvas_exact :: "Grid \<Rightarrow> bool" where
  "canvas_exact g \<longleftrightarrow>
     length (state g) = nat (width g) \<and>
     list_all (\<lambda>p. case p of None \<Rightarrow> False | Some row \<Rightarrow> length row = nat (height g))
       (state g)"

text \<open>
  The rendering in the words of the specification: one line for each \<open>y\<close> below \<open>height\<close>,
  made of the ruler digit of \<open>y\<close> and the cells \<open>(x, y)\<close> for \<open>x\<close> from 0 below \<open>width\<close>, and
  after these a ruler line with the digits of the columns.  The specification does not say
  how digit and cells are separated; the space after the digit of a row and the space that
  starts the ruler line are those of \<open>display\<close>.
\<close>

definition spec_render_row :: "Grid \<Rightarrow> int \<Rightarrow> string" where
  "spec_render_row g y =
     printf_d (ruler 10 y) @ '' '' @
     map (\<lambda>x. the (cell_read (state g) x y)) [0..width g - 1] @ newline"

definition spec_render :: "Grid \<Rightarrow> string" where
  "spec_render g =
     concat (map (spec_render_row g) [0..height g - 1]) @ '' '' @
     concat (map (\<lambda>x. printf_d (ruler 10 x)) [0..width g - 1]) @ newline"

declare for_loop.simps [simp del]
declare command_from_string_loop.simps [simp del]
declare bresenham_line_loop.simps [simp del]
declare bresenham_circle_loop.simps [simp del]
declare bresenham_line_calls.simps [simp del]
declare bresenham_circle_calls_loop.simps [simp del]

section \<open>Plotting\<close>

lemma canvas_ok_row:
  assumes "canvas_ok g" "in_bounds g x y"
  shows "\<exists>row. nat x < length (state g) \<and> state g ! nat x = Some row \<and> nat y < length row"
proof -
  from assms have x: "0 \<le> x" "x < width g" and y: "0 \<le> y" "y < height g"
    by (simp_all add: in_bounds_def)
  from assms(1) have len: "width g \<le> int (length (state g))"
    and all: "list_all (row_ok (height g)) (take (nat (width g)) (state g))"
    by (simp_all add: canvas_ok_def)
  from x len have lt: "nat x < length (take (nat (width g)) (state g))"
    by simp
  from all lt have "row_ok (height g) (take (nat (width g)) (state g) ! nat x)"
    by (simp only: list_all_length)
  with x have r: "row_ok (height g) (state g ! nat x)"
    by simp
  from x len have "nat x < length (state g)"
    by simp
  with r y show ?thesis
    by (cases "state g ! nat x") (auto simp: row_ok_def)
qed

lemma cell_read_write:
  "cell_write st i j c = Some st' \<Longrightarrow>
     cell_read st' i' j' = (if i' = i \<and> j' = j then Some c else cell_read st i' j')"
  by (auto simp: cell_write_def cell_read_def nth_list_update eq_nat_nat_iff
      split: if_splits option.splits)

lemma plot_outside: "\<not> in_bounds g x y \<Longrightarrow> plot g x y = Some g"
  by (simp add: plot_def)

lemma plot_inside:
  assumes "canvas_ok g" "in_bounds g x y"
  shows "\<exists>st. cell_write (state g) x y (character g) = Some st \<and>
           plot g x y = Some (g\<lparr>state := st\<rparr>)"
proof -
  from canvas_ok_row [OF assms] obtain row where
    "nat x < length (state g)" "state g ! nat x = Some row" "nat y < length row"
    by blast
  moreover from assms(2) have "0 \<le> x" "0 \<le> y"
    by (simp_all add: in_bounds_def)
  ultimately have "x < int (length (state g))" "y < int (length row)"
    "0 \<le> x" "0 \<le> y" "state g ! nat x = Some row"
    by simp_all
  then have "cell_write (state g) x y (character g) =
      Some ((state g)[nat x := Some (row[nat y := character g])])"
    by (simp add: cell_write_def)
  with assms(2) show ?thesis
    by (simp add: plot_def)
qed

lemma plot_same_frame: "plot g x y = Some g' \<Longrightarrow> same_frame g g'"
  by (auto simp: plot_def same_frame_def split: if_splits option.splits)

lemma cell_write_length:
  "cell_write st i j c = Some st' \<Longrightarrow> length st' = length st"
  by (auto simp: cell_write_def split: if_splits option.splits)

lemma cell_write_row_ok:
  assumes "cell_write st i j c = Some st'" "k < length st" "row_ok h (st ! k)"
  shows "row_ok h (st' ! k)"
  using assms
  by (auto simp: cell_write_def nth_list_update row_ok_def split: if_splits option.splits)

lemma plot_canvas_ok:
  assumes "canvas_ok g" "plot g x y = Some g'"
  shows "canvas_ok g'"
proof (cases "in_bounds g x y")
  case False
  with assms show ?thesis by (simp add: plot_def)
next
  case True
  with assms(2) obtain st where w: "cell_write (state g) x y (character g) = Some st"
    and g': "g' = g\<lparr>state := st\<rparr>"
    by (auto simp: plot_def split: option.splits)
  from assms(1) have len: "width g \<le> int (length (state g))"
    and all: "list_all (row_ok (height g)) (take (nat (width g)) (state g))"
    by (simp_all add: canvas_ok_def)
  have l: "length st = length (state g)"
    by (rule cell_write_length [OF w])
  have "row_ok (height g) (st ! k)" if "k < nat (width g)" "k < length st" for k
  proof -
    from that l have "k < length (take (nat (width g)) (state g))" by simp
    with all have "row_ok (height g) (take (nat (width g)) (state g) ! k)"
      by (simp only: list_all_length)
    with that have "row_ok (height g) (state g ! k)" by simp
    with w that l show ?thesis by (auto intro: cell_write_row_ok)
  qed
  then have "list_all (row_ok (height g)) (take (nat (width g)) st)"
    by (simp add: list_all_length)
  with len l g' show ?thesis
    by (simp add: canvas_ok_def)
qed

lemma plot_total: "canvas_ok g \<Longrightarrow> \<exists>g'. plot g x y = Some g'"
  by (cases "in_bounds g x y") (auto simp: plot_outside dest: plot_inside)

text \<open>
  C4.  On a canvas whose buffer covers its in-bounds cells, \<open>plot\<close> at a position inside the
  bounds returns the canvas with the draw character in that cell, every other cell as it
  was and the other fields as they were; at any other position it returns the canvas as it
  is.  \<open>plot\<close> prints nothing: it has no output in the model because it has no \<open>printf\<close> in
  the source.  The flag \<open>initialized\<close> is not read by \<open>plot\<close>, so the statement does not
  ask for it.
\<close>

theorem plot_clipping:
  assumes "canvas_ok g"
  shows "(in_bounds g x y \<longrightarrow>
            (\<exists>g'. plot g x y = Some g' \<and>
               cell_read (state g') x y = Some (character g) \<and>
               (\<forall>x' y'. (x', y') \<noteq> (x, y) \<longrightarrow>
                  cell_read (state g') x' y' = cell_read (state g) x' y') \<and>
               same_frame g g')) \<and>
         (\<not> in_bounds g x y \<longrightarrow> plot g x y = Some g)"
proof (intro conjI impI)
  assume inb: "in_bounds g x y"
  from plot_inside [OF assms inb] obtain st where
    w: "cell_write (state g) x y (character g) = Some st" and
    p: "plot g x y = Some (g\<lparr>state := st\<rparr>)"
    by blast
  have "cell_read st x y = Some (character g)"
    by (simp add: cell_read_write [OF w])
  moreover have "\<forall>x' y'. (x', y') \<noteq> (x, y) \<longrightarrow> cell_read st x' y' = cell_read (state g) x' y'"
    by (simp add: cell_read_write [OF w])
  moreover have "same_frame g (g\<lparr>state := st\<rparr>)"
    by (simp add: same_frame_def)
  ultimately show "\<exists>g'. plot g x y = Some g' \<and>
      cell_read (state g') x y = Some (character g) \<and>
      (\<forall>x' y'. (x', y') \<noteq> (x, y) \<longrightarrow>
         cell_read (state g') x' y' = cell_read (state g) x' y') \<and>
      same_frame g g'"
    using p by simp
next
  assume "\<not> in_bounds g x y"
  then show "plot g x y = Some g" by (rule plot_outside)
qed

theorem plot_clipping_witness:
  "canvas_ok blank3 \<and> in_bounds blank3 1 2 \<and>
   (\<exists>g'. plot blank3 1 2 = Some g' \<and>
      cell_read (state g') 1 2 = Some (CHR ''*'') \<and>
      (\<forall>x' y'. (x', y') \<noteq> (1, 2) \<longrightarrow>
         cell_read (state g') x' y' = cell_read (state blank3) x' y') \<and>
      same_frame blank3 g') \<and>
   \<not> in_bounds blank3 3 0 \<and> plot blank3 3 0 = Some blank3 \<and>
   \<not> in_bounds blank3 0 (- 1) \<and> plot blank3 0 (- 1) = Some blank3"
proof -
  have ok: "canvas_ok blank3"
    by (simp add: canvas_ok_def blank3_def row_ok_def)
  have inb: "in_bounds blank3 1 2" "\<not> in_bounds blank3 3 0" "\<not> in_bounds blank3 0 (- 1)"
    by (simp_all add: in_bounds_def blank3_def)
  have c: "character blank3 = CHR ''*''"
    by (simp add: blank3_def)
  show ?thesis
    using ok inb plot_clipping [OF ok, of 1 2] plot_clipping [OF ok, of 3 0]
      plot_clipping [OF ok, of 0 "- 1"]
    by (simp add: c)
qed

section \<open>The rasterisers plot the listed calls\<close>

lemma same_frame_refl: "same_frame g g"
  by (simp add: same_frame_def)

lemma same_frame_trans: "same_frame g g' \<Longrightarrow> same_frame g' g'' \<Longrightarrow> same_frame g g''"
  by (simp add: same_frame_def)

lemma plot_seq_append:
  "plot_seq g (ps @ qs) = (case plot_seq g ps of None \<Rightarrow> None | Some g' \<Rightarrow> plot_seq g' qs)"
  by (induction ps arbitrary: g) (auto split: option.splits)

lemma plot_seq_same_frame: "plot_seq g ps = Some g' \<Longrightarrow> same_frame g g'"
proof (induction ps arbitrary: g)
  case Nil
  then show ?case by (simp add: same_frame_refl)
next
  case (Cons p ps)
  obtain x y where p: "p = (x, y)" by (cases p)
  from Cons.prems p obtain g1 where g1: "plot g x y = Some g1" and rest: "plot_seq g1 ps = Some g'"
    by (auto split: option.splits)
  from plot_same_frame [OF g1] Cons.IH [OF rest] show ?case
    by (rule same_frame_trans)
qed

lemma plot_seq_total: "canvas_ok g \<Longrightarrow> \<exists>g'. plot_seq g ps = Some g' \<and> canvas_ok g'"
proof (induction ps arbitrary: g)
  case Nil
  then show ?case by simp
next
  case (Cons p ps)
  obtain x y where p: "p = (x, y)" by (cases p)
  from plot_total [OF Cons.prems] obtain g1 where g1: "plot g x y = Some g1"
    by blast
  from plot_canvas_ok [OF Cons.prems g1] have "canvas_ok g1" .
  from Cons.IH [OF this] g1 p show ?case by simp
qed

lemma plot_seq_Cons_bind:
  "plot_seq g ((x, y) # ps) = Option.bind (plot g x y) (\<lambda>g'. plot_seq g' ps)"
  by (simp split: option.splits)

lemma plot_octants_calls: "plot_octants g xc yc x y = plot_seq g (octants xc yc x y)"
  unfolding plot_octants_def octants_def plot_seq_Cons_bind by simp

lemma bresenham_line_loop_calls:
  "bresenham_line_loop g x1 y1 x2 y2 dx dy decide pk i =
     plot_seq g (bresenham_line_calls x1 y1 x2 y2 dx dy decide pk i)"
proof (induction g x1 y1 x2 y2 dx dy decide pk i rule: bresenham_line_loop.induct)
  case (1 g x1 y1 x2 y2 dx dy decide pk i)
  show ?case
  proof (cases "i \<le> dx")
    case False
    then show ?thesis
      by (subst bresenham_line_loop.simps, subst bresenham_line_calls.simps) simp
  next
    case True
    show ?thesis
    proof (cases "pk < 0")
      case neg: True
      note IH = "1.IH"(1) [OF True refl neg]
      show ?thesis
        apply (subst bresenham_line_loop.simps, subst bresenham_line_calls.simps)
        using True neg IH
        by (cases "decide \<noteq> 0"; cases "x1 < x2") (simp_all add: Let_def split: option.splits)
    next
      case pos: False
      note IH = "1.IH"(2) [OF True refl pos refl]
      show ?thesis
        apply (subst bresenham_line_loop.simps, subst bresenham_line_calls.simps)
        using True pos IH
        by (cases "decide \<noteq> 0"; cases "x1 < x2"; cases "y1 < y2")
          (simp_all add: Let_def split: option.splits)
    qed
  qed
qed

lemma bresenham_circle_loop_calls:
  "bresenham_circle_loop g xc yc x y d = plot_seq g (bresenham_circle_calls_loop xc yc x y d)"
proof (induction g xc yc x y d rule: bresenham_circle_loop.induct)
  case (1 g xc yc x y d)
  show ?case
  proof (cases "y \<ge> x")
    case False
    then show ?thesis
      by (subst bresenham_circle_loop.simps, subst bresenham_circle_calls_loop.simps) simp
  next
    case True
    note IH = "1.IH" [OF True refl refl refl]
    show ?thesis
      apply (subst bresenham_circle_loop.simps, subst bresenham_circle_calls_loop.simps)
      using True IH
      by (cases "d > 0")
        (simp_all add: Let_def plot_seq_append plot_octants_calls split: option.splits)
  qed
qed

lemma bresenham_circle_calls_eq:
  "bresenham_circle g xc yc radius = plot_seq g (bresenham_circle_calls xc yc radius)"
  by (simp add: bresenham_circle_def bresenham_circle_calls_def plot_seq_append
      plot_octants_calls bresenham_circle_loop_calls split: option.splits)

lemma circle_calls:
  "initialized g \<noteq> 0 \<Longrightarrow>
   circle g (x, y, radius, a3) =
     map_option (\<lambda>g'. (g', [])) (plot_seq g (bresenham_circle_calls x y radius))"
  by (simp add: circle_def bresenham_circle_calls_eq split: option.splits)

lemma line_calls_eq:
  "initialized g \<noteq> 0 \<Longrightarrow>
   line g a = map_option (\<lambda>g'. (g', [])) (plot_seq g (line_calls a))"
  by (cases a)
    (simp add: line_def line_calls_def bresenham_line_def bresenham_line_loop_calls Let_def
      split: option.splits)

section \<open>Canvases that are not initialised\<close>

lemma point_uninit: "initialized g = 0 \<Longrightarrow> point g a = Some (g, error_not_initialized)"
  by (cases a) (simp add: point_def)

lemma line_uninit: "initialized g = 0 \<Longrightarrow> line g a = Some (g, error_not_initialized)"
  by (cases a) (simp add: line_def)

lemma circle_uninit: "initialized g = 0 \<Longrightarrow> circle g a = Some (g, error_not_initialized)"
  by (cases a) (simp add: circle_def)

lemma rectangle_uninit:
  "initialized g = 0 \<Longrightarrow> rectangle g a = Some (g, error_not_initialized)"
  by (cases a) (simp add: rectangle_def)

lemma display_uninit: "initialized g = 0 \<Longrightarrow> display g = Some error_not_initialized"
  by (simp add: display_def)

text \<open>
  C2.  The claim is that every drawing, display and clear operation on a canvas that is not
  initialised prints \<open>error: Grid isn't initialized\<close> and leaves the canvas as it is.
  \<open>point\<close>, \<open>line\<close>, \<open>circle\<close>, \<open>rectangle\<close> and \<open>display\<close> do (\<open>point_uninit\<close>,
  \<open>line_uninit\<close>, \<open>circle_uninit\<close>, \<open>rectangle_uninit\<close>, \<open>display_uninit\<close>).  \<open>clear\<close> has no
  such test: on the canvas a session starts with, the command \<open>CLEAR\<close> returns the canvas
  unchanged and prints nothing.
\<close>

theorem clear_does_not_check:
  "initialized initial_grid = 0 \<and>
   clear initial_grid = Some initial_grid \<and>
   eval \<lparr>i_grid = initial_grid,
         i_op = \<lparr>name = ''CLEAR'', cmd = CLEAR, args = (0, 0, 0, 0)\<rparr>\<rparr> =
     Some (Returned
       \<lparr>i_grid = initial_grid,
        i_op = \<lparr>name = ''CLEAR'', cmd = CLEAR, args = (0, 0, 0, 0)\<rparr>\<rparr> [])"
proof -
  have i: "initialized initial_grid = 0"
    by (simp add: initial_grid_def)
  have c: "clear initial_grid = Some initial_grid"
    by code_simp
  from i c show ?thesis
    by (simp add: eval_def)
qed

section \<open>What the drawing handlers leave alone\<close>

lemma point_eq:
  "initialized g \<noteq> 0 \<Longrightarrow> point g (x, y, a2, a3) = map_option (\<lambda>g'. (g', [])) (plot g x y)"
  by (simp add: point_def split: option.splits)

lemma point_frame: "point g a = Some (g', out) \<Longrightarrow> same_frame g g'"
proof (cases "initialized g = 0")
  case True
  assume "point g a = Some (g', out)"
  with point_uninit [OF True, of a] show ?thesis by (simp add: same_frame_refl)
next
  case False
  assume p: "point g a = Some (g', out)"
  obtain x y a2 a3 where a: "a = (x, y, a2, a3)" by (cases a)
  from p point_eq [OF False, of x y a2 a3] a have "plot g x y = Some g'" by auto
  then show ?thesis by (rule plot_same_frame)
qed

lemma line_frame: "line g a = Some (g', out) \<Longrightarrow> same_frame g g'"
proof (cases "initialized g = 0")
  case True
  assume "line g a = Some (g', out)"
  with line_uninit [OF True, of a] show ?thesis by (simp add: same_frame_refl)
next
  case False
  assume "line g a = Some (g', out)"
  then have "map_option (\<lambda>g'. (g', [])) (plot_seq g (line_calls a)) = Some (g', out)"
    by (simp only: line_calls_eq [OF False])
  then have "plot_seq g (line_calls a) = Some g'" by auto
  then show ?thesis by (rule plot_seq_same_frame)
qed

lemma circle_frame: "circle g a = Some (g', out) \<Longrightarrow> same_frame g g'"
proof (cases "initialized g = 0")
  case True
  assume "circle g a = Some (g', out)"
  with circle_uninit [OF True, of a] show ?thesis by (simp add: same_frame_refl)
next
  case False
  assume c: "circle g a = Some (g', out)"
  obtain x y r a3 where a: "a = (x, y, r, a3)" by (cases a)
  from c circle_calls [OF False, of x y r a3] a
  have "plot_seq g (bresenham_circle_calls x y r) = Some g'" by auto
  then show ?thesis by (rule plot_seq_same_frame)
qed

lemma line_seq_frame: "line_seq g as = Some (g', out) \<Longrightarrow> same_frame g g'"
proof (induction as arbitrary: g out)
  case Nil
  then show ?case by (simp add: same_frame_refl)
next
  case (Cons a as)
  from Cons.prems obtain g1 o1 o2 where l: "line g a = Some (g1, o1)"
    and r: "line_seq g1 as = Some (g', o2)"
    by (auto split: option.splits)
  from line_frame [OF l] Cons.IH [OF r] show ?case by (rule same_frame_trans)
qed

lemma rectangle_lines:
  "initialized g \<noteq> 0 \<Longrightarrow>
   rectangle g (x1, y1, x2, y2) =
     line_seq g
       [(x1, y1, x1 + \<bar>x2 - x1\<bar>, y1),
        (x1 + \<bar>x2 - x1\<bar>, y1, x2, y2),
        (x2, y2, x1, y1 + \<bar>y2 - y1\<bar>),
        (x1, y1 + \<bar>y2 - y1\<bar>, x1, y1)]"
  by (simp add: rectangle_def split: option.splits prod.splits)

lemma rectangle_frame: "rectangle g a = Some (g', out) \<Longrightarrow> same_frame g g'"
proof (cases "initialized g = 0")
  case True
  assume "rectangle g a = Some (g', out)"
  with rectangle_uninit [OF True, of a] show ?thesis by (simp add: same_frame_refl)
next
  case False
  assume r: "rectangle g a = Some (g', out)"
  obtain x1 y1 x2 y2 where a: "a = (x1, y1, x2, y2)" by (cases a)
  from r a show ?thesis
    unfolding a rectangle_lines [OF False] by (rule_tac line_seq_frame)
qed

lemma point_total: "canvas_ok g \<Longrightarrow> \<exists>g' out. point g a = Some (g', out) \<and> canvas_ok g'"
proof (cases "initialized g = 0")
  case True
  assume "canvas_ok g"
  with point_uninit [OF True, of a] show ?thesis by simp
next
  case False
  assume ok: "canvas_ok g"
  obtain x y a2 a3 where a: "a = (x, y, a2, a3)" by (cases a)
  from plot_total [OF ok, of x y] obtain g' where p: "plot g x y = Some g'" by blast
  from plot_canvas_ok [OF ok p] p a point_eq [OF False, of x y a2 a3] show ?thesis by simp
qed

lemma line_total: "canvas_ok g \<Longrightarrow> \<exists>g' out. line g a = Some (g', out) \<and> canvas_ok g'"
proof (cases "initialized g = 0")
  case True
  assume "canvas_ok g"
  with line_uninit [OF True, of a] show ?thesis by simp
next
  case False
  assume ok: "canvas_ok g"
  from plot_seq_total [OF ok, of "line_calls a"] line_calls_eq [OF False, of a]
  show ?thesis by auto
qed

lemma circle_total: "canvas_ok g \<Longrightarrow> \<exists>g' out. circle g a = Some (g', out) \<and> canvas_ok g'"
proof (cases "initialized g = 0")
  case True
  assume "canvas_ok g"
  with circle_uninit [OF True, of a] show ?thesis by simp
next
  case False
  assume ok: "canvas_ok g"
  obtain x y r a3 where a: "a = (x, y, r, a3)" by (cases a)
  from plot_seq_total [OF ok, of "bresenham_circle_calls x y r"]
    circle_calls [OF False, of x y r a3] a
  show ?thesis by auto
qed

lemma line_seq_total:
  "canvas_ok g \<Longrightarrow> \<exists>g' out. line_seq g as = Some (g', out) \<and> canvas_ok g'"
proof (induction as arbitrary: g)
  case Nil
  then show ?case by simp
next
  case (Cons a as)
  from line_total [OF Cons.prems, of a] obtain g1 o1 where
    l: "line g a = Some (g1, o1)" and ok1: "canvas_ok g1" by blast
  from Cons.IH [OF ok1] obtain g2 o2 where
    r: "line_seq g1 as = Some (g2, o2)" and ok2: "canvas_ok g2" by blast
  from l r ok2 show ?case by simp
qed

lemma rectangle_total:
  "canvas_ok g \<Longrightarrow> \<exists>g' out. rectangle g a = Some (g', out) \<and> canvas_ok g'"
proof (cases "initialized g = 0")
  case True
  assume "canvas_ok g"
  with rectangle_uninit [OF True, of a] show ?thesis by simp
next
  case False
  assume ok: "canvas_ok g"
  obtain x1 y1 x2 y2 where a: "a = (x1, y1, x2, y2)" by (cases a)
  show ?thesis
    unfolding a rectangle_lines [OF False] by (rule line_seq_total [OF ok])
qed

text \<open>
  C10.  Whatever the canvas and the arguments, a call of \<open>point\<close>, \<open>line\<close>, \<open>circle\<close> or
  \<open>rectangle\<close> that returns leaves \<open>width\<close>, \<open>height\<close>, \<open>character\<close> and \<open>initialized\<close>
  as they were: at most the cells differ.  On a canvas whose buffer covers its in-bounds
  cells each of the four does return (no access falls outside the buffer).
\<close>

theorem drawing_keeps_frame:
  "(\<forall>g' out. point g a = Some (g', out) \<longrightarrow> same_frame g g') \<and>
   (\<forall>g' out. line g a = Some (g', out) \<longrightarrow> same_frame g g') \<and>
   (\<forall>g' out. circle g a = Some (g', out) \<longrightarrow> same_frame g g') \<and>
   (\<forall>g' out. rectangle g a = Some (g', out) \<longrightarrow> same_frame g g') \<and>
   (canvas_ok g \<longrightarrow>
      point g a \<noteq> None \<and> line g a \<noteq> None \<and> circle g a \<noteq> None \<and> rectangle g a \<noteq> None)"
proof (intro conjI allI impI)
  fix g' out
  show "point g a = Some (g', out) \<Longrightarrow> same_frame g g'" by (rule point_frame)
  show "line g a = Some (g', out) \<Longrightarrow> same_frame g g'" by (rule line_frame)
  show "circle g a = Some (g', out) \<Longrightarrow> same_frame g g'" by (rule circle_frame)
  show "rectangle g a = Some (g', out) \<Longrightarrow> same_frame g g'" by (rule rectangle_frame)
next
  assume ok: "canvas_ok g"
  from point_total [OF ok, of a] show "point g a \<noteq> None" by auto
  from line_total [OF ok, of a] show "line g a \<noteq> None" by auto
  from circle_total [OF ok, of a] show "circle g a \<noteq> None" by auto
  from rectangle_total [OF ok, of a] show "rectangle g a \<noteq> None" by auto
qed

theorem drawing_keeps_frame_witness:
  "canvas_ok blank3 \<and>
   (\<exists>g' out. point blank3 (0, 0, 2, 1) = Some (g', out) \<and> same_frame blank3 g') \<and>
   (\<exists>g' out. line blank3 (0, 0, 2, 1) = Some (g', out) \<and> same_frame blank3 g') \<and>
   (\<exists>g' out. circle blank3 (0, 0, 2, 1) = Some (g', out) \<and> same_frame blank3 g') \<and>
   (\<exists>g' out. rectangle blank3 (0, 0, 2, 1) = Some (g', out) \<and> same_frame blank3 g')"
proof -
  have ok: "canvas_ok blank3"
    by code_simp
  from ok drawing_keeps_frame [of blank3 "(0, 0, 2, 1)"] show ?thesis
    by fastforce
qed

section \<open>Lines\<close>

lemma line_loop_length:
  "length (bresenham_line_calls x1 y1 x2 y2 dx dy decide pk i) = nat (dx + 1 - i)"
proof (induction x1 y1 x2 y2 dx dy decide pk i rule: bresenham_line_calls.induct)
  case (1 x1 y1 x2 y2 dx dy decide pk i)
  show ?case
  proof (cases "i \<le> dx")
    case False
    then show ?thesis
      by (subst bresenham_line_calls.simps) simp
  next
    case True
    show ?thesis
    proof (cases "pk < 0")
      case neg: True
      from "1.IH"(1) [OF True refl neg] True neg show ?thesis
        by (subst bresenham_line_calls.simps) (simp add: Let_def nat_add_distrib)
    next
      case pos: False
      from "1.IH"(2) [OF True refl pos refl] True pos show ?thesis
        by (subst bresenham_line_calls.simps) (simp add: Let_def nat_add_distrib)
    qed
  qed
qed

lemma line_calls_length:
  "length (line_calls (x1, y1, x2, y2)) = nat (2 + max \<bar>x2 - x1\<bar> \<bar>y2 - y1\<bar>)"
proof -
  have "Suc (nat (\<bar>d\<bar> + 1)) = nat (2 + \<bar>d\<bar>)" for d :: int
    by arith
  then show ?thesis
    by (simp add: line_calls_def Let_def line_loop_length max_def)
qed

text \<open>
  C1.  The claim is that \<open>line\<close> plots exactly \<open>1 + max(|x2 - x1|, |y2 - y1|)\<close> distinct
  positions.  The loop of \<open>bresenham_line\<close> runs while \<open>i <= dx\<close>, that is \<open>dx + 1\<close> times,
  after the handler has plotted the start point: \<open>line_calls_length\<close> counts
  \<open>2 + max(|x2 - x1|, |y2 - y1|)\<close> calls of \<open>plot\<close>.  In the last round \<open>x1 < x2\<close> is false,
  the driving coordinate steps back (or past the end point when the line runs towards
  smaller coordinates), and the other coordinate may move too.  From \<open>(0, 0)\<close> to \<open>(2, 1)\<close>
  on the 3 by 3 canvas the calls are \<open>(0, 0)\<close>, \<open>(1, 1)\<close>, \<open>(2, 1)\<close>, \<open>(1, 0)\<close>: four distinct
  cells are set where the claim says three.
\<close>

theorem line_plots_past_the_end:
  "line_calls (0, 0, 2, 1) = [(0, 0), (1, 1), (2, 1), (1, 0)] \<and>
   card (set (line_calls (0, 0, 2, 1))) = 4 \<and>
   1 + max \<bar>2 - 0\<bar> \<bar>1 - 0\<bar> = (3 :: int) \<and>
   line blank3 (0, 0, 2, 1) =
     Some (\<lparr>state = [Some ''*  '', Some ''** '', Some '' * ''],
             character = CHR ''*'', width = 3, height = 3, initialized = 1\<rparr>, [])"
proof -
  have c: "line_calls (0, 0, 2, 1) = [(0, 0), (1, 1), (2, 1), (1, 0)]"
    by code_simp
  have l: "line blank3 (0, 0, 2, 1) =
     Some (\<lparr>state = [Some ''*  '', Some ''** '', Some '' * ''],
             character = CHR ''*'', width = 3, height = 3, initialized = 1\<rparr>, [])"
    by code_simp
  show ?thesis
    unfolding c using l by simp
qed

section \<open>Circles\<close>

lemma octants_offsets:
  "octants xc yc x y = map (\<lambda>(u, v). (xc + u, yc + v)) (offsets x y)"
  by (simp add: octants_def offsets_def)

lemma octants_mem:
  "(xc + a, yc + b) \<in> set (octants xc yc x y) \<longleftrightarrow> (a, b) \<in> set (offsets x y)"
proof -
  have "inj (\<lambda>(u, v). (xc + u, yc + v))"
    by (auto simp: inj_on_def)
  then have "(\<lambda>(u, v). (xc + u, yc + v)) (a, b) \<in> (\<lambda>(u, v). (xc + u, yc + v)) ` set (offsets x y)
      \<longleftrightarrow> (a, b) \<in> set (offsets x y)"
    by (rule inj_image_mem_iff)
  then show ?thesis
    by (simp add: octants_offsets)
qed

lemma offsets_neg1: "(a, b) \<in> set (offsets x y) \<Longrightarrow> (- a, b) \<in> set (offsets x y)"
  unfolding offsets_def set_simps insert_iff empty_iff prod.inject
  by (elim disjE conjE; simp)

lemma offsets_neg2: "(a, b) \<in> set (offsets x y) \<Longrightarrow> (a, - b) \<in> set (offsets x y)"
  unfolding offsets_def set_simps insert_iff empty_iff prod.inject
  by (elim disjE conjE; simp)

lemma offsets_swap: "(a, b) \<in> set (offsets x y) \<Longrightarrow> (b, a) \<in> set (offsets x y)"
  unfolding offsets_def set_simps insert_iff empty_iff prod.inject
  by (elim disjE conjE; simp)

lemma octants_reflect:
  assumes "(xc + a, yc + b) \<in> set (octants xc yc x y)"
  shows "(xc - a, yc + b) \<in> set (octants xc yc x y) \<and>
         (xc + a, yc - b) \<in> set (octants xc yc x y) \<and>
         (xc - a, yc - b) \<in> set (octants xc yc x y) \<and>
         (xc + b, yc + a) \<in> set (octants xc yc x y) \<and>
         (xc - b, yc + a) \<in> set (octants xc yc x y) \<and>
         (xc + b, yc - a) \<in> set (octants xc yc x y) \<and>
         (xc - b, yc - a) \<in> set (octants xc yc x y)"
proof -
  from assms have m: "(a, b) \<in> set (offsets x y)"
    by (simp only: octants_mem)
  have "(xc + - a, yc + b) \<in> set (octants xc yc x y)"
    unfolding octants_mem using m by (rule offsets_neg1)
  moreover have "(xc + a, yc + - b) \<in> set (octants xc yc x y)"
    unfolding octants_mem using m by (rule offsets_neg2)
  moreover have "(xc + - a, yc + - b) \<in> set (octants xc yc x y)"
    unfolding octants_mem by (rule offsets_neg1 [OF offsets_neg2 [OF m]])
  moreover have "(xc + b, yc + a) \<in> set (octants xc yc x y)"
    unfolding octants_mem using m by (rule offsets_swap)
  moreover have "(xc + - b, yc + a) \<in> set (octants xc yc x y)"
    unfolding octants_mem by (rule offsets_neg1 [OF offsets_swap [OF m]])
  moreover have "(xc + b, yc + - a) \<in> set (octants xc yc x y)"
    unfolding octants_mem by (rule offsets_neg2 [OF offsets_swap [OF m]])
  moreover have "(xc + - b, yc + - a) \<in> set (octants xc yc x y)"
    unfolding octants_mem by (rule offsets_neg1 [OF offsets_neg2 [OF offsets_swap [OF m]]])
  ultimately show ?thesis
    by simp
qed

lemma circle_loop_octant:
  "p \<in> set (bresenham_circle_calls_loop xc yc x y d) \<Longrightarrow>
   \<exists>x' y'. p \<in> set (octants xc yc x' y') \<and>
     set (octants xc yc x' y') \<subseteq> set (bresenham_circle_calls_loop xc yc x y d)"
proof (induction xc yc x y d rule: bresenham_circle_calls_loop.induct)
  case (1 xc yc x y d)
  show ?case
  proof (cases "y \<ge> x")
    case False
    with "1.prems" show ?thesis
      by (subst (asm) bresenham_circle_calls_loop.simps) simp
  next
    case True
    define x' where "x' = x + 1"
    define y' where "y' = (if d > 0 then y - 1 else y)"
    define d' where "d' = (if d > 0 then d + 4 * (x' - y') + 10 else d + 4 * x' + 6)"
    have unf: "bresenham_circle_calls_loop xc yc x y d =
        octants xc yc x' y' @ bresenham_circle_calls_loop xc yc x' y' d'"
      using True
      by (subst bresenham_circle_calls_loop.simps) (simp add: x'_def y'_def d'_def Let_def)
    from "1.prems" unf consider
      "p \<in> set (octants xc yc x' y')" | "p \<in> set (bresenham_circle_calls_loop xc yc x' y' d')"
      by auto
    then show ?thesis
    proof cases
      case 1
      with unf show ?thesis by auto
    next
      case 2
      from "1.IH" [OF True x'_def y'_def d'_def 2] obtain u v where
        "p \<in> set (octants xc yc u v)"
        "set (octants xc yc u v) \<subseteq> set (bresenham_circle_calls_loop xc yc x' y' d')"
        by blast
      with unf show ?thesis by auto
    qed
  qed
qed

lemma circle_octant:
  assumes "p \<in> set (bresenham_circle_calls xc yc radius)"
  shows "\<exists>x y. p \<in> set (octants xc yc x y) \<and>
     set (octants xc yc x y) \<subseteq> set (bresenham_circle_calls xc yc radius)"
proof -
  from assms consider "p \<in> set (octants xc yc 0 radius)"
    | "p \<in> set (bresenham_circle_calls_loop xc yc 0 radius (3 - 2 * radius))"
    by (auto simp: bresenham_circle_calls_def)
  then show ?thesis
  proof cases
    case 1
    then show ?thesis by (auto simp: bresenham_circle_calls_def)
  next
    case 2
    from circle_loop_octant [OF 2] show ?thesis
      by (auto simp: bresenham_circle_calls_def)
  qed
qed

text \<open>
  C9.  The positions handed to \<open>plot\<close> by the circle rasteriser (\<open>circle_calls\<close> shows
  that the handler \<open>circle\<close> plots exactly the list \<open>bresenham_circle_calls\<close>) are closed
  under the eight reflections about the centre: if the offset \<open>(a, b)\<close> from the centre is
  plotted, so are \<open>(\<plusminus>a, \<plusminus>b)\<close> and \<open>(\<plusminus>b, \<plusminus>a)\<close>.  This holds for every radius, negative ones
  included, so no bound on the radius is assumed.
\<close>

theorem circle_symmetric:
  assumes "(xc + a, yc + b) \<in> set (bresenham_circle_calls xc yc radius)"
  shows "(xc - a, yc + b) \<in> set (bresenham_circle_calls xc yc radius) \<and>
         (xc + a, yc - b) \<in> set (bresenham_circle_calls xc yc radius) \<and>
         (xc - a, yc - b) \<in> set (bresenham_circle_calls xc yc radius) \<and>
         (xc + b, yc + a) \<in> set (bresenham_circle_calls xc yc radius) \<and>
         (xc - b, yc + a) \<in> set (bresenham_circle_calls xc yc radius) \<and>
         (xc + b, yc - a) \<in> set (bresenham_circle_calls xc yc radius) \<and>
         (xc - b, yc - a) \<in> set (bresenham_circle_calls xc yc radius)"
proof -
  from circle_octant [OF assms] obtain x y where
    p: "(xc + a, yc + b) \<in> set (octants xc yc x y)" and
    sub: "set (octants xc yc x y) \<subseteq> set (bresenham_circle_calls xc yc radius)"
    by blast
  from octants_reflect [OF p] sub show ?thesis
    by blast
qed

theorem circle_symmetric_witness:
  "(5 + 1, 5 + 2) \<in> set (bresenham_circle_calls 5 5 2) \<and>
   (5 - 1, 5 + 2) \<in> set (bresenham_circle_calls 5 5 2) \<and>
   (5 + 1, 5 - 2) \<in> set (bresenham_circle_calls 5 5 2) \<and>
   (5 - 1, 5 - 2) \<in> set (bresenham_circle_calls 5 5 2) \<and>
   (5 + 2, 5 + 1) \<in> set (bresenham_circle_calls 5 5 2) \<and>
   (5 - 2, 5 + 1) \<in> set (bresenham_circle_calls 5 5 2) \<and>
   (5 + 2, 5 - 1) \<in> set (bresenham_circle_calls 5 5 2) \<and>
   (5 - 2, 5 - 1) \<in> set (bresenham_circle_calls 5 5 2)"
proof -
  have h: "(5 + 1, 5 + 2) \<in> set (bresenham_circle_calls 5 5 2)"
    by code_simp
  from h circle_symmetric [OF h] show ?thesis
    by blast
qed

section \<open>Rectangles\<close>

lemma blank3_initialized: "initialized blank3 \<noteq> 0"
  by (simp add: blank3_def)

text \<open>
  C8.  On an initialised canvas \<open>rectangle\<close> is four calls of \<open>line\<close>, one after the other
  on the canvas the previous one left: from \<open>(x1, y1)\<close> to \<open>(x1 + |x2 - x1|, y1)\<close>, from
  there to \<open>(x2, y2)\<close>, from \<open>(x2, y2)\<close> to \<open>(x1, y1 + |y2 - y1|)\<close>, and from there back to
  \<open>(x1, y1)\<close>.
\<close>

theorem rectangle_four_lines:
  assumes "initialized g \<noteq> 0"
  shows "rectangle g (x1, y1, x2, y2) =
     line_seq g
       [(x1, y1, x1 + \<bar>x2 - x1\<bar>, y1),
        (x1 + \<bar>x2 - x1\<bar>, y1, x2, y2),
        (x2, y2, x1, y1 + \<bar>y2 - y1\<bar>),
        (x1, y1 + \<bar>y2 - y1\<bar>, x1, y1)]"
  using assms by (rule rectangle_lines)

theorem rectangle_four_lines_witness:
  "initialized blank3 \<noteq> 0 \<and>
   rectangle blank3 (0, 0, 2, 1) =
     line_seq blank3 [(0, 0, 2, 0), (2, 0, 2, 1), (2, 1, 0, 1), (0, 1, 0, 0)] \<and>
   rectangle blank3 (0, 0, 2, 1) \<noteq> None"
proof -
  have r: "rectangle blank3 (0, 0, 2, 1) \<noteq> None"
    by code_simp
  from rectangle_four_lines [OF blank3_initialized, of 0 0 2 1] blank3_initialized r
  show ?thesis by simp
qed

section \<open>Rules for counted loops\<close>

lemma for_loop_step:
  "i < n \<Longrightarrow>
   for_loop i n body s =
     (case body i s of None \<Rightarrow> None | Some s' \<Rightarrow> for_loop (i + 1) n body s')"
  by (subst for_loop.simps) simp

lemma for_loop_stop: "\<not> i < n \<Longrightarrow> for_loop i n body s = Some s"
  by (subst for_loop.simps) simp

lemma for_loop_rule:
  assumes "I i s" "i \<le> n"
    and "\<And>k t. i \<le> k \<Longrightarrow> k < n \<Longrightarrow> I k t \<Longrightarrow> \<exists>t'. body k t = Some t' \<and> I (k + 1) t'"
  shows "\<exists>s'. for_loop i n body s = Some s' \<and> I n s'"
  using assms
proof (induction i n body s rule: for_loop.induct)
  case (1 i n body s)
  show ?case
  proof (cases "i < n")
    case False
    with "1.prems"(1,2) show ?thesis
      by (simp add: for_loop_stop)
  next
    case True
    from "1.prems"(3) [OF order_refl True "1.prems"(1)] obtain t where
      b: "body i s = Some t" and t: "I (i + 1) t"
      by blast
    have "\<exists>s'. for_loop (i + 1) n body t = Some s' \<and> I n s'"
    proof (rule "1.IH" [OF True b t])
      from True show "i + 1 \<le> n" by simp
      fix k u
      assume "i + 1 \<le> k" "k < n" "I k u"
      then show "\<exists>t'. body k u = Some t' \<and> I (k + 1) t'"
        using "1.prems"(3) [of k u] by simp
    qed
    with True b show ?thesis
      by (simp add: for_loop_step)
  qed
qed

lemma for_loop_split:
  "i \<le> m \<Longrightarrow> m \<le> n \<Longrightarrow>
   for_loop i n body s =
     (case for_loop i m body s of None \<Rightarrow> None | Some t \<Rightarrow> for_loop m n body t)"
proof (induction i m body s rule: for_loop.induct)
  case (1 i m body s)
  show ?case
  proof (cases "i < m")
    case False
    with "1.prems" have "i = m" by simp
    then show ?thesis by (simp add: for_loop_stop)
  next
    case True
    with "1.prems" have in': "i < n" by simp
    show ?thesis
    proof (cases "body i s")
      case None
      with True in' show ?thesis by (simp add: for_loop_step)
    next
      case (Some t)
      from True have "i + 1 \<le> m" by simp
      from "1.IH" [OF True Some this "1.prems"(2)] True in' Some show ?thesis
        by (simp add: for_loop_step)
    qed
  qed
qed

lemma for_loop_fault:
  assumes "I i s" "i \<le> m" "m < n"
    and "\<And>k t. i \<le> k \<Longrightarrow> k < m \<Longrightarrow> I k t \<Longrightarrow> \<exists>t'. body k t = Some t' \<and> I (k + 1) t'"
    and "\<And>t. I m t \<Longrightarrow> body m t = None"
  shows "for_loop i n body s = None"
proof -
  from for_loop_rule [of I i s m body, OF assms(1,2) assms(4)] obtain t where
    t: "for_loop i m body s = Some t" "I m t"
    by blast
  from assms(3) have "m \<le> n" by simp
  from for_loop_split [OF assms(2) this, of body s] t assms(3) assms(5) [OF t(2)]
  show ?thesis
    by (simp add: for_loop_step)
qed

lemma for_loop_append:
  assumes "\<And>k out. 0 \<le> k \<Longrightarrow> k < n \<Longrightarrow> body k out = Some (out @ f k)"
  shows "for_loop 0 n body out0 = Some (out0 @ concat (map f [0..n - 1]))"
proof (cases "0 < n")
  case False
  then show ?thesis
    by (simp add: for_loop_stop)
next
  case True
  define I where "I k out \<longleftrightarrow> 0 \<le> k \<and> k \<le> n \<and> out = out0 @ concat (map f [0..k - 1])"
    for k out
  have init: "I 0 out0"
    using True by (simp add: I_def)
  have step: "\<exists>t'. body k out = Some t' \<and> I (k + 1) t'" if "0 \<le> k" "k < n" "I k out" for k out
  proof -
    from that(1) have "[0..k] = [0..k - 1] @ [k]"
      by (rule upto_rec2)
    with that have "I (k + 1) (out @ f k)"
      by (simp add: I_def)
    with assms [OF that(1,2), of out] show ?thesis
      by simp
  qed
  from True have "0 \<le> n" by simp
  from for_loop_rule [of I 0 out0 n body, OF init this step]
  show ?thesis
    by (auto simp: I_def)
qed

lemma fill_step:
  "j < length xs \<Longrightarrow>
   (replicate j c @ drop j xs)[j := c] = replicate (Suc j) c @ drop (Suc j) xs"
  by (simp add: list_update_append Cons_nth_drop_Suc [symmetric] replicate_append_same)

section \<open>Clearing\<close>

lemma fill_row:
  assumes i: "0 \<le> i" "nat i < length st" and row: "st ! nat i = Some row"
    and len: "length row = nat n"
  shows "for_loop 0 n (\<lambda>j st. cell_write st i j c) st =
     Some (st[nat i := Some (replicate (nat n) c)])"
proof -
  have upd_id: "st[nat i := Some row] = st"
    using list_update_id [of st "nat i"] row by simp
  show ?thesis
  proof (cases "0 < n")
  case False
  with len have "row = []" by simp
  with upd_id have "st[nat i := Some (replicate (nat n) c)] = st"
    using False by simp
  with False show ?thesis
    by (simp add: for_loop_stop)
next
  case True
  define I where "I j t \<longleftrightarrow>
      0 \<le> j \<and> j \<le> n \<and> t = st[nat i := Some (replicate (nat j) c @ drop (nat j) row)]"
    for j t
  have init: "I 0 st"
    using True upd_id by (simp add: I_def)
  have step: "\<exists>t'. cell_write t i k c = Some t' \<and> I (k + 1) t'"
    if "0 \<le> k" "k < n" "I k t" for k t
  proof -
    define R where "R = replicate (nat k) c @ drop (nat k) row"
    from that have t: "t = st[nat i := Some R]"
      by (simp add: I_def R_def)
    from that len have k: "nat k < length row"
      by simp
    then have lenR: "length R = length row"
      by (simp add: R_def)
    from t i have ti: "t ! nat i = Some R" "i < int (length t)"
      by simp_all
    from k lenR that have kR: "k < int (length R)"
      by simp
    from ti kR i(1) that(1) have w: "cell_write t i k c = Some (t[nat i := Some (R[nat k := c])])"
      by (simp add: cell_write_def)
    have "R[nat k := c] = replicate (Suc (nat k)) c @ drop (Suc (nat k)) row"
      unfolding R_def by (rule fill_step [OF k])
    moreover from that(1) have "nat (k + 1) = Suc (nat k)"
      by simp
    ultimately have "I (k + 1) (t[nat i := Some (R[nat k := c])])"
      using that(1,2) t by (simp add: I_def)
    with w show ?thesis
      by simp
  qed
  from True have "0 \<le> n" by simp
  from for_loop_rule [of I 0 st n "\<lambda>j st. cell_write st i j c", OF init this step]
  obtain s' where "for_loop 0 n (\<lambda>j st. cell_write st i j c) st = Some s'" "I n s'"
    by blast
  with len show ?thesis
    by (simp add: I_def)
  qed
qed

lemma fill_rows:
  assumes len: "length st = nat n"
    and rows: "\<And>k. k < nat n \<Longrightarrow> \<exists>row. st ! k = Some row \<and> length row = nat n"
  shows "for_loop 0 n (\<lambda>i. for_loop 0 n (\<lambda>j st. cell_write st i j c)) st =
     Some (replicate (nat n) (Some (replicate (nat n) c)))"
proof (cases "0 < n")
  case False
  with len show ?thesis
    by (simp add: for_loop_stop)
next
  case True
  define full where "full = Some (replicate (nat n) c)"
  define I where "I i t \<longleftrightarrow>
      0 \<le> i \<and> i \<le> n \<and> t = replicate (nat i) full @ drop (nat i) st" for i t
  have init: "I 0 st"
    using True by (simp add: I_def)
  have step: "\<exists>t'. for_loop 0 n (\<lambda>j st. cell_write st i j c) t = Some t' \<and> I (i + 1) t'"
    if "0 \<le> i" "i < n" "I i t" for i t
  proof -
    from that have t: "t = replicate (nat i) full @ drop (nat i) st"
      by (simp add: I_def)
    from that have k: "nat i < nat n"
      by simp
    from rows [OF k] obtain row where row: "st ! nat i = Some row" "length row = nat n"
      by blast
    from k len have ki: "nat i < length st"
      by simp
    with t row have ti: "t ! nat i = Some row"
      by (simp add: nth_append)
    from t ki have lt: "nat i < length t"
      by simp
    from fill_row [OF that(1) lt ti row(2), of c]
    have f: "for_loop 0 n (\<lambda>j st. cell_write st i j c) t = Some (t[nat i := full])"
      by (simp add: full_def)
    have "t[nat i := full] = replicate (Suc (nat i)) full @ drop (Suc (nat i)) st"
      unfolding t by (rule fill_step [OF ki])
    moreover from that(1) have "nat (i + 1) = Suc (nat i)"
      by simp
    ultimately have "I (i + 1) (t[nat i := full])"
      using that(1,2) by (simp add: I_def)
    with f show ?thesis
      by simp
  qed
  from True have "0 \<le> n" by simp
  from for_loop_rule [of I 0 st n "\<lambda>i. for_loop 0 n (\<lambda>j st. cell_write st i j c)",
      OF init this step]
  obtain s' where "for_loop 0 n (\<lambda>i. for_loop 0 n (\<lambda>j st. cell_write st i j c)) st = Some s'"
    "I n s'"
    by blast
  with len show ?thesis
    by (simp add: I_def full_def)
qed

lemma canvas_exact_rows:
  assumes "canvas_exact g" "k < nat (width g)"
  shows "\<exists>row. state g ! k = Some row \<and> length row = nat (height g)"
proof -
  from assms have "k < length (state g)"
    by (simp add: canvas_exact_def)
  moreover from assms(1) have
    "list_all (\<lambda>p. case p of None \<Rightarrow> False | Some row \<Rightarrow> length row = nat (height g)) (state g)"
    by (simp add: canvas_exact_def)
  ultimately have "case state g ! k of None \<Rightarrow> False | Some row \<Rightarrow> length row = nat (height g)"
    by (simp only: list_all_length)
  then show ?thesis
    by (cases "state g ! k") simp_all
qed

lemma clear_square:
  assumes "canvas_exact g" "width g = height g"
  shows "clear g =
     Some (g\<lparr>state := replicate (nat (width g)) (Some (replicate (nat (height g)) (CHR '' '')))\<rparr>)"
proof -
  from assms(1) have len: "length (state g) = nat (height g)"
    by (simp add: canvas_exact_def assms(2))
  have rows: "\<exists>row. state g ! k = Some row \<and> length row = nat (height g)"
    if "k < nat (height g)" for k
    using canvas_exact_rows [OF assms(1), of k] that assms(2) by simp
  from fill_rows [OF len rows, of "CHR '' ''"] show ?thesis
    by (simp add: clear_def assms(2))
qed

text \<open>
  C6.  The claim is that \<open>clear\<close> sets all \<open>width * height\<close> cells to the space character.
  The loops of \<open>clear\<close> write \<open>state[i][j]\<close> with \<open>i < height\<close> and \<open>j < width\<close>, while
  \<open>in_bounds\<close> and \<open>plot\<close> take the first index below \<open>width\<close> and the second below
  \<open>height\<close>.  On square canvases the two agree and \<open>clear\<close> blanks every cell
  (\<open>clear_square\<close>).  On the canvas of width 2 and height 1 \<open>clear\<close> writes \<open>state[0][1]\<close>
  outside the one-cell row, which is \<open>None\<close>.  With rows of two cells, where that write
  succeeds, the in-bounds cell \<open>(1, 0)\<close> keeps its character \<open>c\<close>.  The width, the height
  and the draw character are left alone in every case: \<open>clear\<close> assigns cells only.
\<close>

theorem clear_rows_follow_height:
  "canvas_exact canvas21 \<and> in_bounds canvas21 1 0 \<and>
   clear canvas21 = None \<and>
   clear roomy21 = Some (roomy21\<lparr>state := [Some ''  '', Some ''cd'']\<rparr>) \<and>
   in_bounds roomy21 1 0 \<and>
   cell_read [Some ''  '', Some ''cd''] 1 0 = Some (CHR ''c'')"
proof -
  have "canvas_exact canvas21"
    by code_simp
  moreover have "in_bounds canvas21 1 0"
    by code_simp
  moreover have "clear canvas21 = None"
    by code_simp
  moreover have "clear roomy21 = Some (roomy21\<lparr>state := [Some ''  '', Some ''cd'']\<rparr>)"
    by code_simp
  moreover have "in_bounds roomy21 1 0"
    by code_simp
  moreover have "cell_read [Some ''  '', Some ''cd''] 1 0 = Some (CHR ''c'')"
    by code_simp
  ultimately show ?thesis
    by (intro conjI)
qed

section \<open>Creating the grid\<close>

lemma row_alloc_length: "row_alloc st i m = Some st' \<Longrightarrow> length st' = length st"
  by (auto simp: row_alloc_def split: if_splits)

lemma alloc_rows:
  assumes "h \<le> int (length st)"
  shows "for_loop 0 h (\<lambda>i st. row_alloc st i m) st =
     Some (replicate (nat h) (Some (replicate (nat m) (CHR 0x00))) @ drop (nat h) st)"
proof (cases "0 < h")
  case False
  then show ?thesis
    by (simp add: for_loop_stop)
next
  case True
  define fresh where "fresh = Some (replicate (nat m) (CHR 0x00))"
  define I where "I i t \<longleftrightarrow>
      0 \<le> i \<and> i \<le> h \<and> t = replicate (nat i) fresh @ drop (nat i) st" for i t
  have init: "I 0 st"
    using True by (simp add: I_def)
  have step: "\<exists>t'. row_alloc t i m = Some t' \<and> I (i + 1) t'"
    if "0 \<le> i" "i < h" "I i t" for i t
  proof -
    from that have t: "t = replicate (nat i) fresh @ drop (nat i) st"
      by (simp add: I_def)
    from that assms have ki: "nat i < length st"
      by simp
    with t that(1) have "i < int (length t)"
      by simp
    with that(1) have a: "row_alloc t i m = Some (t[nat i := fresh])"
      by (simp add: row_alloc_def fresh_def)
    have "t[nat i := fresh] = replicate (Suc (nat i)) fresh @ drop (Suc (nat i)) st"
      unfolding t by (rule fill_step [OF ki])
    moreover from that(1) have "nat (i + 1) = Suc (nat i)"
      by simp
    ultimately have "I (i + 1) (t[nat i := fresh])"
      using that(1,2) by (simp add: I_def)
    with a show ?thesis
      by simp
  qed
  from True have "0 \<le> h" by simp
  from for_loop_rule [of I 0 st h "\<lambda>i st. row_alloc st i m", OF init this step]
  obtain s' where "for_loop 0 h (\<lambda>i st. row_alloc st i m) st = Some s'" "I h s'"
    by blast
  then show ?thesis
    by (simp add: I_def fresh_def)
qed

lemma alloc_rows_fault:
  assumes "int (length st) < h"
  shows "for_loop 0 h (\<lambda>i st. row_alloc st i m) st = None"
proof (rule for_loop_fault [of "\<lambda>i t. length t = length st" 0 st "int (length st)"])
  show "length st = length st" by simp
  show "0 \<le> int (length st)" by simp
  show "int (length st) < h" by (rule assms)
  show "\<exists>t'. row_alloc t k m = Some t' \<and> length t' = length st"
    if "0 \<le> k" "k < int (length st)" "length t = length st" for k t
    using that by (simp add: row_alloc_def)
  show "row_alloc t (int (length st)) m = None" if "length t = length st" for t
    using that by (simp add: row_alloc_def)
qed

lemma fill_row_fault:
  assumes st: "0 < length st" "st ! 0 = Some row" and len: "int (length row) < w"
  shows "for_loop 0 w (\<lambda>j st. cell_write st 0 j c) st = None"
proof (rule for_loop_fault
    [of "\<lambda>j t. 0 < length t \<and> (\<exists>r. t ! 0 = Some r \<and> length r = length row)" 0 st
      "int (length row)"])
  from st show "0 < length st \<and> (\<exists>r. st ! 0 = Some r \<and> length r = length row)"
    by simp
  show "0 \<le> int (length row)" by simp
  show "int (length row) < w" by (rule len)
  show "\<exists>t'. cell_write t 0 k c = Some t' \<and>
      0 < length t' \<and> (\<exists>r. t' ! 0 = Some r \<and> length r = length row)"
    if "0 \<le> k" "k < int (length row)"
      "0 < length t \<and> (\<exists>r. t ! 0 = Some r \<and> length r = length row)" for k t
    using that by (auto simp: cell_write_def)
  show "cell_write t 0 (int (length row)) c = None"
    if "0 < length t \<and> (\<exists>r. t ! 0 = Some r \<and> length r = length row)" for t
    using that by (auto simp: cell_write_def)
qed

lemma grid_square:
  assumes "initialized g = 0"
  shows "grid g (n, n, a2, a3) =
     Some (g\<lparr>state := replicate (nat n) (Some (replicate (nat n) (CHR '' ''))),
             width := n, height := n, initialized := 1\<rparr>, [])"
proof -
  define st1 where "st1 = replicate (nat n) (Some (replicate (nat n) (CHR 0x00)))"
  have "n \<le> int (length (replicate (nat n) (None :: char list option)))"
    by simp
  from alloc_rows [OF this, of n]
  have a: "for_loop 0 n (\<lambda>i st. row_alloc st i n) (replicate (nat n) None) = Some st1"
    by (simp add: st1_def)
  have len: "length st1 = nat n"
    by (simp add: st1_def)
  have rows: "\<exists>row. st1 ! k = Some row \<and> length row = nat n" if "k < nat n" for k
    using that by (simp add: st1_def)
  from fill_rows [OF len rows, of "CHR '' ''"] a assms show ?thesis
    by (simp add: grid_def)
qed

lemma grid_not_square:
  assumes "initialized g = 0" "0 < w" "0 < h" "w \<noteq> h"
  shows "grid g (w, h, a2, a3) = None"
proof (cases "w < h")
  case True
  then have "int (length (replicate (nat w) (None :: char list option))) < h"
    using assms(2) by simp
  from alloc_rows_fault [OF this, of h] assms(1) show ?thesis
    by (simp add: grid_def)
next
  case False
  with assms(4) have lt: "h < w" by simp
  define st1 where
    "st1 = replicate (nat h) (Some (replicate (nat h) (CHR 0x00))) @
       drop (nat h) (replicate (nat w) None)"
  from lt have "h \<le> int (length (replicate (nat w) (None :: char list option)))"
    by simp
  from alloc_rows [OF this, of h]
  have a: "for_loop 0 h (\<lambda>i st. row_alloc st i h) (replicate (nat w) None) = Some st1"
    by (simp add: st1_def)
  from assms(3) have st1: "0 < length st1" "st1 ! 0 = Some (replicate (nat h) (CHR 0x00))"
    by (simp_all add: st1_def nth_append)
  from assms(3) lt have "int (length (replicate (nat h) (CHR 0x00))) < w"
    by simp
  from fill_row_fault [OF st1 this, of "CHR '' ''"] assms(3)
  have "for_loop 0 h (\<lambda>i. for_loop 0 w (\<lambda>j st. cell_write st i j (CHR '' ''))) st1 = None"
    by (simp add: for_loop_step)
  with a assms(1) show ?thesis
    by (simp add: grid_def)
qed

lemma grid_sets_initialized: "grid g a = Some (g', out) \<Longrightarrow> initialized g' \<noteq> 0"
  by (cases a) (auto simp: grid_def split: if_splits Option.bind_splits)

lemma grid_blank3: "grid initial_grid (3, 3, 0, 0) = Some (blank3, [])"
  by code_simp

text \<open>
  C5.  On a canvas whose flag \<open>initialized\<close> is set, as it is after a call of \<open>grid\<close> that
  went through (\<open>grid_sets_initialized\<close>; \<open>grid_square\<close> gives the canvas it leaves),
  \<open>grid\<close> with any arguments prints \<open>error: Grid has already been initialized\<close> and
  returns the canvas as it is: buffer, width, height, draw character and flag.
\<close>

theorem grid_second_call:
  assumes "initialized g \<noteq> 0"
  shows "grid g a = Some (g, ''error: Grid has already been initialized'' @ [CHR 0x0A])"
  using assms
  by (cases a) (simp add: grid_def error_already_initialized_def newline_def)

theorem grid_second_call_witness:
  "grid initial_grid (3, 3, 0, 0) = Some (blank3, []) \<and> initialized blank3 \<noteq> 0 \<and>
   grid blank3 (5, 7, 0, 0) =
     Some (blank3, ''error: Grid has already been initialized'' @ [CHR 0x0A])"
  using grid_blank3 blank3_initialized grid_second_call [OF blank3_initialized, of "(5, 7, 0, 0)"]
  by simp

section \<open>Display\<close>

lemma smod_10: "k smod 10 = (if 0 \<le> k then k mod 10 else - ((- k) mod 10))" for k :: int
  by (simp add: signed_modulo_int_def sgn_if abs_if)

lemma smod_10_nonneg: "0 \<le> a \<Longrightarrow> a smod 10 = a mod 10" for a :: int
  by (simp add: smod_10)

lemma wrap_mod: "(k smod 10 + 10) smod 10 = k mod 10" for k :: int
proof (cases "0 \<le> k")
  case True
  then have s: "k smod 10 = k mod 10"
    by (rule smod_10_nonneg)
  have "0 \<le> k mod 10 + 10"
    by (simp add: add_nonneg_nonneg)
  then have "(k mod 10 + 10) smod 10 = (k mod 10 + 10) mod 10"
    by (rule smod_10_nonneg)
  then show ?thesis
    unfolding s by simp
next
  case False
  have m: "0 \<le> (- k) mod 10" "(- k) mod 10 < 10"
    by simp_all
  from False have s: "k smod 10 = - ((- k) mod 10)"
    by (simp add: smod_10)
  from m have "0 \<le> - ((- k) mod 10) + 10"
    by linarith
  then have "(- ((- k) mod 10) + 10) smod 10 = (- ((- k) mod 10) + 10) mod 10"
    by (rule smod_10_nonneg)
  also have "\<dots> = (- ((- k) mod 10)) mod 10"
    by simp
  also have "\<dots> = (- (- k)) mod 10"
    by (rule mod_minus_eq)
  finally show ?thesis
    unfolding s by simp
qed

lemma ruler_mod: "ruler 10 i = (9 - i) mod 10"
  by (simp add: ruler_def wrap_mod)

lemma canvas_exact_read:
  assumes "canvas_exact g" "0 \<le> x" "x < width g" "0 \<le> y" "y < height g"
  shows "\<exists>c. cell_read (state g) x y = Some c"
proof -
  from assms(2,3) have k: "nat x < nat (width g)"
    by simp
  from canvas_exact_rows [OF assms(1) k] obtain row where
    row: "state g ! nat x = Some row" "length row = nat (height g)"
    by blast
  from assms(1) k have "nat x < length (state g)"
    by (simp add: canvas_exact_def)
  with assms(2) have "x < int (length (state g))"
    by simp
  moreover from row(2) assms(4,5) have "y < int (length row)"
    by simp
  ultimately show ?thesis
    using row(1) assms(2,4) by (simp add: cell_read_def)
qed

lemma display_square:
  assumes ex: "canvas_exact g" and sq: "width g = height g" and ini: "initialized g \<noteq> 0"
  shows "display g = Some (spec_render g)"
proof -
  have cells: "for_loop 0 (height g)
        (\<lambda>j out. do { c \<leftarrow> cell_read (state g) j i; Some (out @ [c]) }) out0 =
      Some (out0 @ map (\<lambda>x. the (cell_read (state g) x i)) [0..width g - 1])"
    if i: "0 \<le> i" "i < width g" for i out0
  proof -
    have "for_loop 0 (height g)
        (\<lambda>j out. do { c \<leftarrow> cell_read (state g) j i; Some (out @ [c]) }) out0 =
      Some (out0 @ concat (map (\<lambda>x. [the (cell_read (state g) x i)]) [0..height g - 1]))"
    proof (rule for_loop_append)
      fix k out
      assume k: "0 \<le> k" "k < height g"
      from canvas_exact_read [OF ex, of k i] k i sq obtain c where
        "cell_read (state g) k i = Some c"
        by auto
      then show "do { c \<leftarrow> cell_read (state g) k i; Some (out @ [c]) } =
          Some (out @ [the (cell_read (state g) k i)])"
        by simp
    qed
    then show ?thesis
      by (simp add: sq concat_map_singleton)
  qed
  have rows: "for_loop 0 (width g)
        (\<lambda>i out. do {
           out \<leftarrow> Some (out @ printf_d (ruler 10 i) @ '' '');
           out \<leftarrow> for_loop 0 (height g)
             (\<lambda>j out. do { c \<leftarrow> cell_read (state g) j i; Some (out @ [c]) }) out;
           Some (out @ newline)
         }) [] =
      Some ([] @ concat (map (spec_render_row g) [0..width g - 1]))"
    by (rule for_loop_append) (simp add: cells spec_render_row_def)
  have digits: "for_loop 0 (width g) (\<lambda>i out. Some (out @ printf_d (ruler 10 i))) out0 =
      Some (out0 @ concat (map (\<lambda>x. printf_d (ruler 10 x)) [0..width g - 1]))" for out0
    by (rule for_loop_append) simp
  from ini rows digits show ?thesis
    by (simp add: display_def spec_render_def sq)
qed

text \<open>
  C3.  The claim is that \<open>display\<close> prints \<open>height\<close> rows of \<open>width\<close> cells, each after its
  ruler digit, and then the ruler line.  The row loop of \<open>display\<close> runs to \<open>width\<close> and its
  cell loop to \<open>height\<close>, reading \<open>state[j][i]\<close> with \<open>j < height\<close> and \<open>i < width\<close>, while
  \<open>in_bounds\<close> and \<open>plot\<close> take the first index below \<open>width\<close> and the second below
  \<open>height\<close>.  On square canvases the two agree and \<open>display\<close> prints the text of the
  claim (\<open>display_square\<close>).  On the canvas of width 2 and height 1 the claim has the one
  row \<open>9 ac\<close>; \<open>display\<close> starts two rows of one cell and, in the second, reads
  \<open>state[0][1]\<close> outside the one-cell row, which is \<open>None\<close>.  With rows of two cells, where
  that read succeeds, it prints the two rows \<open>9 a\<close> and \<open>8 b\<close> and never reads the in-bounds
  cell \<open>(1, 0)\<close>.  The handler \<open>grid\<close> has the same loops and leaves the buffer on every
  size that is not square (\<open>grid_not_square\<close>).
\<close>

theorem display_rows_follow_width:
  "canvas_exact canvas21 \<and> initialized canvas21 \<noteq> 0 \<and>
   spec_render canvas21 = ''9 ac'' @ [CHR 0x0A] @ '' 98'' @ [CHR 0x0A] \<and>
   display canvas21 = None \<and>
   display roomy21 =
     Some (''9 a'' @ [CHR 0x0A] @ ''8 b'' @ [CHR 0x0A] @ '' 98'' @ [CHR 0x0A])"
proof -
  have "canvas_exact canvas21"
    by code_simp
  moreover have "initialized canvas21 \<noteq> 0"
    by (simp add: canvas21_def)
  moreover have "spec_render canvas21 = ''9 ac'' @ [CHR 0x0A] @ '' 98'' @ [CHR 0x0A]"
    by code_simp
  moreover have "display canvas21 = None"
    by code_simp
  moreover have "display roomy21 =
      Some (''9 a'' @ [CHR 0x0A] @ ''8 b'' @ [CHR 0x0A] @ '' 98'' @ [CHR 0x0A])"
    by code_simp
  ultimately show ?thesis
    by (intro conjI)
qed

section \<open>Commands\<close>

lemma command_loop_miss:
  "str \<notin> snd ` set (drop i COMMAND_STRING) \<Longrightarrow> command_from_string_loop str i = INVALID"
proof (induction str i rule: command_from_string_loop.induct)
  case (1 str i)
  show ?case
  proof (cases "i < length COMMAND_STRING")
    case False
    then show ?thesis
      by (subst command_from_string_loop.simps) simp
  next
    case True
    then have d: "drop i COMMAND_STRING = COMMAND_STRING ! i # drop (i + 1) COMMAND_STRING"
      by (simp add: Cons_nth_drop_Suc)
    with "1.prems" have ne: "str \<noteq> snd (COMMAND_STRING ! i)"
      and rest: "str \<notin> snd ` set (drop (i + 1) COMMAND_STRING)"
      by auto
    from "1.IH" [OF True ne rest] True ne show ?thesis
      by (subst command_from_string_loop.simps) simp
  qed
qed

lemma command_table_hit: "\<forall>(c, n) \<in> set COMMAND_STRING. command_from_string n = c"
  unfolding COMMAND_STRING_def by code_simp

text \<open>
  C7.  \<open>command_from_string\<close> is defined on every string: a name of the table
  \<open>COMMAND_STRING\<close> gives the command of its entry, any other string gives \<open>INVALID\<close>.
  \<open>eval\<close> on an operation of kind \<open>INVALID\<close> prints \<open>error: Invalid command `name`\<close> with
  the name stored in the operation, followed by a newline, and returns the interpreter, so
  also the canvas, unchanged.
\<close>

theorem command_total:
  "(\<forall>(c, n) \<in> set COMMAND_STRING. command_from_string n = c) \<and>
   (str \<notin> snd ` set COMMAND_STRING \<longrightarrow> command_from_string str = INVALID) \<and>
   (cmd (i_op i) = INVALID \<longrightarrow>
      eval i = Some (Returned i (''error: Invalid command `'' @ name (i_op i) @ ''`'' @ [CHR 0x0A])))"
proof (intro conjI impI)
  show "\<forall>(c, n) \<in> set COMMAND_STRING. command_from_string n = c"
    by (rule command_table_hit)
  show "command_from_string str = INVALID" if "str \<notin> snd ` set COMMAND_STRING"
    using that command_loop_miss [of str 0] by (simp add: command_from_string_def)
  show "eval i = Some (Returned i (''error: Invalid command `'' @ name (i_op i) @ ''`'' @ [CHR 0x0A]))"
    if "cmd (i_op i) = INVALID"
    using that by (simp add: eval_def newline_def)
qed

theorem command_total_witness:
  "(LINE, ''LINE'') \<in> set COMMAND_STRING \<and> command_from_string ''LINE'' = LINE \<and>
   ''FOO'' \<notin> snd ` set COMMAND_STRING \<and> command_from_string ''FOO'' = INVALID \<and>
   eval \<lparr>i_grid = blank3,
         i_op = \<lparr>name = ''FOO'', cmd = command_from_string ''FOO'', args = (0, 0, 0, 0)\<rparr>\<rparr> =
     Some (Returned
       \<lparr>i_grid = blank3, i_op = \<lparr>name = ''FOO'', cmd = INVALID, args = (0, 0, 0, 0)\<rparr>\<rparr>
       (''error: Invalid command `FOO`'' @ [CHR 0x0A]))"
proof -
  have hit: "(LINE, ''LINE'') \<in> set COMMAND_STRING"
    by (simp add: COMMAND_STRING_def)
  have miss: "''FOO'' \<notin> snd ` set COMMAND_STRING"
    by (simp add: COMMAND_STRING_def)
  from hit miss
    command_total [of "''FOO''"
      "\<lparr>i_grid = blank3, i_op = \<lparr>name = ''FOO'', cmd = INVALID, args = (0, 0, 0, 0)\<rparr>\<rparr>"]
  show ?thesis
    by auto
qed

end
